theory Spec2Isabelle
  imports Main
begin

section \<open>Data model\<close>

text \<open>
  Everything that the C++ code can do besides returning a value is an error value here:
  \<^item> \<open>OutOfRange\<close>: a \<open>std::out_of_range\<close> exception, thrown by \<open>std::string::at\<close>,
    \<open>substr\<close>, \<open>erase\<close>, \<open>insert\<close>, \<open>replace\<close> or \<open>std::stoi\<close>; no function of
    \<open>Image.cpp\<close> catches it;
  \<^item> \<open>InvalidArgument\<close>: the \<open>std::invalid_argument\<close> of \<open>std::stoi\<close>;
  \<^item> \<open>SignedOverflow\<close>: the addition \<open>std::stoi(mod) + 1\<close> leaves the range of \<open>int\<close>
    (undefined behaviour);
  \<^item> \<open>ArrayOutOfBounds i\<close>: \<open>VALID_EXTENSIONS[i]\<close> is read with \<open>i\<close> outside the array
    (undefined behaviour).
\<close>

datatype error = OutOfRange | InvalidArgument | SignedOverflow | ArrayOutOfBounds int

text \<open>
  The OpenCV flags that \<open>Image.cpp\<close> stores in the registry. Their numeric values come
  from the OpenCV headers, so they stay symbolic.
\<close>

datatype imwrite_flag =
  CV_IMWRITE_PNG_COMPRESSION | CV_IMWRITE_JPEG_QUALITY | CV_IMWRITE_PXM_BINARY

text \<open>\<open>struct FormatTrip\<close> of \<open>Image.h\<close>.\<close>

record FormatTrip =
  ext :: string
  format :: imwrite_flag
  quality :: nat

definition EXTENSION_COUNT :: nat where
  "EXTENSION_COUNT = 6"

definition VALID_EXTENSIONS :: "FormatTrip list" where
  "VALID_EXTENSIONS =
    [\<lparr>ext = ''.png'', format = CV_IMWRITE_PNG_COMPRESSION, quality = 9\<rparr>,
     \<lparr>ext = ''.jpg'', format = CV_IMWRITE_JPEG_QUALITY, quality = 100\<rparr>,
     \<lparr>ext = ''.jpeg'', format = CV_IMWRITE_JPEG_QUALITY, quality = 100\<rparr>,
     \<lparr>ext = ''.pbm'', format = CV_IMWRITE_PXM_BINARY, quality = 1\<rparr>,
     \<lparr>ext = ''.pgm'', format = CV_IMWRITE_PXM_BINARY, quality = 1\<rparr>,
     \<lparr>ext = ''.ppm'', format = CV_IMWRITE_PXM_BINARY, quality = 1\<rparr>]"

section \<open>The operations of \<open>std::string\<close> that the code calls\<close>

text \<open>
  Indices are the \<open>int\<close> variables of the source, as unbounded integers: a filename is
  taken to be shorter than \<open>2^31\<close> characters, so that \<open>length() - 1\<close> fits an \<open>int\<close>.
  A negative \<open>int\<close> passed as a \<open>size_type\<close> becomes a value above every length, which is
  why \<open>at\<close> throws for it.
\<close>

definition at :: "string \<Rightarrow> int \<Rightarrow> error + char" where
  "at s i = (if 0 \<le> i \<and> i < int (length s) then Inr (s ! nat i) else Inl OutOfRange)"

definition in_size :: "string \<Rightarrow> int \<Rightarrow> bool" where
  "in_size s pos \<longleftrightarrow> 0 \<le> pos \<and> pos \<le> int (length s)"

text \<open>
  \<open>s.substr(pos, n)\<close>, \<open>s.erase(pos, n)\<close>, \<open>s.insert(pos, t)\<close> and
  \<open>s.replace(pos, n, t)\<close>: each throws when \<open>pos > s.size()\<close> and clips \<open>n\<close> at the end
  of the string. The counts the code passes are differences of indices and are never
  negative where the call is reached with \<open>pos\<close> in range; \<open>nat\<close> reads them.
\<close>

definition substr :: "string \<Rightarrow> int \<Rightarrow> int \<Rightarrow> error + string" where
  "substr s pos n =
    (if in_size s pos then Inr (take (nat n) (drop (nat pos) s)) else Inl OutOfRange)"

definition erase :: "string \<Rightarrow> int \<Rightarrow> int \<Rightarrow> error + string" where
  "erase s pos n =
    (if in_size s pos then Inr (take (nat pos) s @ drop (nat pos + nat n) s)
     else Inl OutOfRange)"

definition insert_str :: "string \<Rightarrow> int \<Rightarrow> string \<Rightarrow> error + string" where
  "insert_str s pos t =
    (if in_size s pos then Inr (take (nat pos) s @ t @ drop (nat pos) s)
     else Inl OutOfRange)"

definition replace_str :: "string \<Rightarrow> int \<Rightarrow> int \<Rightarrow> string \<Rightarrow> error + string" where
  "replace_str s pos n t =
    (if in_size s pos then Inr (take (nat pos) s @ t @ drop (nat pos + nat n) s)
     else Inl OutOfRange)"

text \<open>
  \<open>isdigit\<close> in the C locale: true of the ten characters \<open>0\<close> to \<open>9\<close> (codes 48 to 57)
  and of no other character.
\<close>

definition isdigit :: "char \<Rightarrow> bool" where
  "isdigit c \<longleftrightarrow> (48::int) \<le> of_char c \<and> of_char c \<le> (57::int)"

text \<open>The value of a run of decimal digits, most significant digit first.\<close>

definition digit_val :: "char \<Rightarrow> int" where
  "digit_val c = of_char c - 48"

definition decimal :: "string \<Rightarrow> int" where
  "decimal ds = foldl (\<lambda>v c. 10 * v + digit_val c) 0 ds"

text \<open>The largest \<open>int\<close>: \<open>int\<close> has 32 bits.\<close>

definition INT_MAX :: int where
  "INT_MAX = 2147483647"

text \<open>
  \<open>std::stoi\<close> on a string that starts with a digit: it converts the leading run of
  digits and throws \<open>std::out_of_range\<close> when the value does not fit an \<open>int\<close>. Without
  a leading digit it throws \<open>std::invalid_argument\<close> (the white space and the sign that
  the library also accepts do not occur: the code passes digits only).
\<close>

definition stoi :: "string \<Rightarrow> error + int" where
  "stoi s =
    (let ds = takeWhile isdigit s in
     if ds = [] then Inl InvalidArgument
     else if decimal ds > INT_MAX then Inl OutOfRange
     else Inr (decimal ds))"

text \<open>\<open>std::to_string\<close> of an \<open>int\<close>: the decimal digits, after a minus sign if negative.\<close>

definition digit_char :: "int \<Rightarrow> char" where
  "digit_char d = ''0123456789'' ! nat d"

function to_string_digits :: "int \<Rightarrow> string" where
  "to_string_digits n =
    (if n < 10 then [digit_char n]
     else to_string_digits (n div 10) @ [digit_char (n mod 10)])"
  by pat_completeness auto
termination
  by (relation "measure nat") auto

definition to_string :: "int \<Rightarrow> string" where
  "to_string i = (if i < 0 then CHR ''-'' # to_string_digits (- i) else to_string_digits i)"

section \<open>\<open>Image::hasValidExtension\<close>\<close>

text \<open>
  \<open>while( FILENAME.at(ch) != '.') --ch;\<close> The loop has no lower bound on \<open>ch\<close>: below
  index 0 it is \<open>at\<close> that ends it, with an exception.
\<close>

function locate_dot :: "string \<Rightarrow> int \<Rightarrow> error + int" where
  "locate_dot s ch =
    (case at s ch of
       Inl e \<Rightarrow> Inl e
     | Inr c \<Rightarrow> if c \<noteq> CHR ''.'' then locate_dot s (ch - 1) else Inr ch)"
  by pat_completeness auto
termination
  by (relation "measure (\<lambda>(s, ch). nat (ch + 1))") (auto simp: at_def split: if_splits)

text \<open>\<open>while(idx < EXTENSION_COUNT) { if(!ext.compare(...)) return idx; ++idx; } return -1;\<close>\<close>

function search_ext :: "string \<Rightarrow> nat \<Rightarrow> int" where
  "search_ext e idx =
    (if idx < EXTENSION_COUNT then
       (if e = ext (VALID_EXTENSIONS ! idx) then int idx else search_ext e (idx + 1))
     else - 1)"
  by pat_completeness auto
termination
  by (relation "measure (\<lambda>(e, idx). EXTENSION_COUNT - idx)") auto

definition hasValidExtension :: "string \<Rightarrow> error + int" where
  "hasValidExtension FILENAME =
    (if FILENAME = [] then Inr (- 3)
     else case locate_dot FILENAME (int (length FILENAME) - 1) of
       Inl e \<Rightarrow> Inl e
     | Inr ch \<Rightarrow>
         if ch = 0 then Inr (- 2)
         else (case substr FILENAME ch (int (length FILENAME) - 1) of
                 Inl e \<Rightarrow> Inl e
               | Inr e \<Rightarrow> Inr (search_ext e 0)))"

section \<open>\<open>Image::removeExtension\<close>\<close>

text \<open>\<open>while(ch > 0 && bad_filename.at(ch) != '.') --ch;\<close>\<close>

function locate_ext :: "string \<Rightarrow> int \<Rightarrow> error + int" where
  "locate_ext s ch =
    (if ch > 0 then
       (case at s ch of
          Inl e \<Rightarrow> Inl e
        | Inr c \<Rightarrow> if c \<noteq> CHR ''.'' then locate_ext s (ch - 1) else Inr ch)
     else Inr ch)"
  by pat_completeness auto
termination
  by (relation "measure (\<lambda>(s, ch). nat ch)") auto

text \<open>
  The filename is passed by reference: the result is the returned flag and the
  filename after the call.
\<close>

definition removeExtension :: "string \<Rightarrow> error + bool \<times> string" where
  "removeExtension bad_filename =
    (if bad_filename = [] then Inr (False, bad_filename)
     else
       let s_len = int (length bad_filename) in
       case locate_ext bad_filename (s_len - 1) of
         Inl e \<Rightarrow> Inl e
       | Inr ch \<Rightarrow>
           if ch = 0 then Inr (False, bad_filename)
           else (case erase bad_filename ch (s_len - ch) of
                   Inl e \<Rightarrow> Inl e
                 | Inr f \<Rightarrow> Inr (True, f)))"

section \<open>\<open>Image::addExtension\<close>\<close>

text \<open>
  \<open>initialized()\<close> asks the OpenCV matrix whether it holds data: it is the parameter
  \<open>initialized\<close>. The flag that \<open>removeExtension\<close> returns is dropped, as in the source.
\<close>

definition addExtension :: "bool \<Rightarrow> string \<Rightarrow> error + bool \<times> string" where
  "addExtension initialized incomplete_filename =
    (if \<not> initialized then Inr (False, incomplete_filename)
     else case removeExtension incomplete_filename of
       Inl e \<Rightarrow> Inl e
     | Inr (r, f) \<Rightarrow> Inr (True, f @ ''.png''))"

section \<open>\<open>Image::generateFilename\<close>\<close>

text \<open>
  \<open>while(mod_ch >= 0 && isdigit(seed.at(mod_ch))) { mod.insert(0, 1, seed.at(mod_ch)); --mod_ch; }\<close>
  The state of the loop is \<open>mod_ch\<close> and the string \<open>mod\<close> (here \<open>mod_s\<close>).
\<close>

function collect_digits :: "string \<Rightarrow> int \<Rightarrow> string \<Rightarrow> error + int \<times> string" where
  "collect_digits seed mod_ch mod_s =
    (if mod_ch \<ge> 0 then
       (case at seed mod_ch of
          Inl e \<Rightarrow> Inl e
        | Inr c \<Rightarrow>
            if isdigit c then collect_digits seed (mod_ch - 1) (c # mod_s)
            else Inr (mod_ch, mod_s))
     else Inr (mod_ch, mod_s))"
  by pat_completeness auto
termination
  by (relation "measure (\<lambda>(seed, mod_ch, mod_s). nat (mod_ch + 1))") auto

text \<open>\<open>std::stoi(mod) + 1\<close> on \<open>int\<close>.\<close>

definition increment :: "string \<Rightarrow> error + int" where
  "increment mod_s =
    (case stoi mod_s of
       Inl e \<Rightarrow> Inl e
     | Inr n \<Rightarrow> if n = INT_MAX then Inl SignedOverflow else Inr (n + 1))"

definition generateFilename :: "string \<Rightarrow> error + string" where
  "generateFilename seed =
    (if seed = [] then Inr []
     else
       (case hasValidExtension seed of
          Inl e \<Rightarrow> Inl e
        | Inr v \<Rightarrow>
            if \<not> (v \<ge> 0) then Inr []
            else
              (case locate_ext seed (int (length seed) - 1) of
                 Inl e \<Rightarrow> Inl e
               | Inr ext_ch \<Rightarrow>
                   (case at seed (ext_ch - 1) of
                      Inl e \<Rightarrow> Inl e
                    | Inr c \<Rightarrow>
                        if isdigit c then
                          (case collect_digits seed (ext_ch - 1) [] of
                             Inl e \<Rightarrow> Inl e
                           | Inr (mod_ch, mod_s) \<Rightarrow>
                               if mod_ch > 0 then
                                 (case at seed mod_ch of
                                    Inl e \<Rightarrow> Inl e
                                  | Inr u \<Rightarrow>
                                      if u = CHR ''_'' then
                                        (case increment mod_s of
                                           Inl e \<Rightarrow> Inl e
                                         | Inr n \<Rightarrow>
                                             replace_str seed mod_ch (ext_ch - mod_ch)
                                               (''_'' @ to_string n))
                                      else Inr seed)
                               else Inr seed)
                        else insert_str seed ext_ch ''_1''))))"

section \<open>\<open>Image::saveImage\<close>\<close>

text \<open>\<open>VALID_EXTENSIONS[ext_idx]\<close>: a read of a C array of \<open>EXTENSION_COUNT\<close> elements.\<close>

definition registry_at :: "int \<Rightarrow> error + FormatTrip" where
  "registry_at i =
    (if 0 \<le> i \<and> i < int EXTENSION_COUNT then Inr (VALID_EXTENSIONS ! nat i)
     else Inl (ArrayOutOfBounds i))"

text \<open>
  The part of \<open>saveImage\<close> that settles the extension of \<open>this->filename\<close>, from the
  call of \<open>hasValidExtension\<close> to the end of the \<open>if\<close> block after it. The result is
  whether \<open>saveImage\<close> goes on, the value of \<open>ext_idx\<close> and the filename.
\<close>

definition saveImage_extension :: "bool \<Rightarrow> string \<Rightarrow> error + bool \<times> int \<times> string" where
  "saveImage_extension initialized filename =
    (case hasValidExtension filename of
       Inl e \<Rightarrow> Inl e
     | Inr ext_idx \<Rightarrow>
         if ext_idx < 0 \<or> ext_idx \<ge> int EXTENSION_COUNT then
           (case removeExtension filename of
              Inl e \<Rightarrow> Inl e
            | Inr (r, f) \<Rightarrow>
                (case addExtension initialized f of
                   Inl e \<Rightarrow> Inl e
                 | Inr (added, f') \<Rightarrow> Inr (added, ext_idx, f')))
         else Inr (True, ext_idx, filename))"

text \<open>
  \<open>cv::imwrite\<close> is the parameter \<open>imwrite\<close>: given the filename and the two entries of
  \<open>params\<close>, it tells whether the codec returned (\<open>True\<close>) or threw the
  \<open>std::runtime_error\<close> that \<open>saveImage\<close> catches. The result of \<open>saveImage\<close> is the
  returned flag, the filename of the object after the call, and the arguments of the
  call of \<open>cv::imwrite\<close> when there was one.
\<close>

type_synonym codec_call = "string \<times> imwrite_flag \<times> nat"

definition saveImage ::
  "(codec_call \<Rightarrow> bool) \<Rightarrow> bool \<Rightarrow> string \<Rightarrow> error + bool \<times> string \<times> codec_call option" where
  "saveImage imwrite initialized filename =
    (if \<not> initialized \<or> filename = [] then Inr (False, filename, None)
     else
       (case saveImage_extension initialized filename of
          Inl e \<Rightarrow> Inl e
        | Inr (go_on, ext_idx, f) \<Rightarrow>
            if \<not> go_on then Inr (False, f, None)
            else
              (case registry_at ext_idx of
                 Inl e \<Rightarrow> Inl e
               | Inr t \<Rightarrow>
                   Inr (imwrite (f, format t, quality t), f, Some (f, format t, quality t)))))"

section \<open>The scanning loops\<close>

text \<open>
  The recursive equations stay out of the simplifier: each loop is unfolded one step at
  a time, at index 0 and at a successor index.
\<close>

declare locate_dot.simps [simp del] search_ext.simps [simp del] locate_ext.simps [simp del]
  collect_digits.simps [simp del] to_string_digits.simps [simp del]

lemma nat_one_plus_int: "nat (1 + int n) = Suc n"
  by linarith

lemma at_int: "at s (int k) = (if k < length s then Inr (s ! k) else Inl OutOfRange)"
  by (simp add: at_def)

lemma at_negative: "i < 0 \<Longrightarrow> at s i = Inl OutOfRange"
  by (simp add: at_def)

lemma locate_dot_0:
  "locate_dot s 0 =
    (if s = [] then Inl OutOfRange
     else if s ! 0 \<noteq> CHR ''.'' then Inl OutOfRange else Inr 0)"
proof -
  have "locate_dot s (- 1) = Inl OutOfRange"
    by (subst locate_dot.simps) (simp add: at_def)
  then show ?thesis
    by (subst locate_dot.simps) (simp add: at_def)
qed

lemma locate_dot_Suc:
  "locate_dot s (int (Suc k)) =
    (if Suc k < length s then
       (if s ! Suc k \<noteq> CHR ''.'' then locate_dot s (int k) else Inr (int (Suc k)))
     else Inl OutOfRange)"
  by (subst locate_dot.simps) (simp add: at_def nat_one_plus_int)

lemma locate_dot_found:
  "CHR ''.'' \<notin> set e \<Longrightarrow> n \<le> length e \<Longrightarrow>
   locate_dot (a @ CHR ''.'' # e) (int (length a + n)) = Inr (int (length a))"
proof (induction n)
  case 0
  show ?case
  proof (cases a rule: rev_cases)
    case Nil
    then show ?thesis by (simp add: locate_dot_0)
  next
    case (snoc b x)
    then show ?thesis
      by (simp add: locate_dot_Suc nth_append del: of_nat_Suc of_nat_add)
  qed
next
  case (Suc n)
  then have "n < length e" by simp
  moreover from this Suc.prems have "e ! n \<noteq> CHR ''.''" by (metis nth_mem)
  ultimately show ?case using Suc
    by (simp add: locate_dot_Suc nth_append del: of_nat_Suc of_nat_add)
qed

lemma locate_dot_none_aux:
  "CHR ''.'' \<notin> set s \<Longrightarrow> n < length s \<Longrightarrow> locate_dot s (int n) = Inl OutOfRange"
proof (induction n)
  case 0
  then show ?case by (cases s) (auto simp: locate_dot_0)
next
  case (Suc n)
  then have "s ! Suc n \<noteq> CHR ''.''" by (metis nth_mem)
  then show ?case using Suc
    by (simp add: locate_dot_Suc del: of_nat_Suc)
qed

lemma locate_ext_0: "locate_ext s 0 = Inr 0"
  by (subst locate_ext.simps) simp

lemma locate_ext_Suc:
  "locate_ext s (int (Suc k)) =
    (if Suc k < length s then
       (if s ! Suc k \<noteq> CHR ''.'' then locate_ext s (int k) else Inr (int (Suc k)))
     else Inl OutOfRange)"
  by (subst locate_ext.simps) (simp add: at_def nat_one_plus_int)

lemma locate_ext_found:
  "CHR ''.'' \<notin> set e \<Longrightarrow> a \<noteq> [] \<Longrightarrow> n \<le> length e \<Longrightarrow>
   locate_ext (a @ CHR ''.'' # e) (int (length a + n)) = Inr (int (length a))"
proof (induction n)
  case 0
  then obtain b x where "a = b @ [x]" by (cases a rule: rev_cases) auto
  then show ?case
    by (simp add: locate_ext_Suc nth_append del: of_nat_Suc of_nat_add)
next
  case (Suc n)
  then have "n < length e" by simp
  moreover from this Suc.prems have "e ! n \<noteq> CHR ''.''" by (metis nth_mem)
  ultimately show ?case using Suc
    by (simp add: locate_ext_Suc nth_append del: of_nat_Suc of_nat_add)
qed

lemma locate_ext_none:
  "CHR ''.'' \<notin> set (tl s) \<Longrightarrow> n < length s \<Longrightarrow> locate_ext s (int n) = Inr 0"
proof (induction n)
  case 0
  show ?case by (simp add: locate_ext_0)
next
  case (Suc n)
  then have "n < length (tl s)" by simp
  with Suc.prems have "tl s ! n \<noteq> CHR ''.''" by (metis nth_mem)
  then have "s ! Suc n \<noteq> CHR ''.''" using Suc.prems by (cases s) auto
  then show ?case using Suc
    by (simp add: locate_ext_Suc del: of_nat_Suc)
qed

section \<open>The registry search\<close>

lemma search_ext_unfold:
  "search_ext e 0 =
    (if e = ''.png'' then 0 else if e = ''.jpg'' then 1 else if e = ''.jpeg'' then 2
     else if e = ''.pbm'' then 3 else if e = ''.pgm'' then 4 else if e = ''.ppm'' then 5
     else - 1)"
proof -
  have 6: "search_ext e 6 = - 1"
    by (subst search_ext.simps) (simp add: EXTENSION_COUNT_def)
  have 5: "search_ext e 5 = (if e = ''.ppm'' then 5 else - 1)"
    by (subst search_ext.simps) (simp add: EXTENSION_COUNT_def VALID_EXTENSIONS_def 6)
  have 4: "search_ext e 4 = (if e = ''.pgm'' then 4 else search_ext e 5)"
    by (subst search_ext.simps) (simp add: EXTENSION_COUNT_def VALID_EXTENSIONS_def)
  have 3: "search_ext e 3 = (if e = ''.pbm'' then 3 else search_ext e 4)"
    by (subst search_ext.simps) (simp add: EXTENSION_COUNT_def VALID_EXTENSIONS_def)
  have 2: "search_ext e 2 = (if e = ''.jpeg'' then 2 else search_ext e 3)"
    by (subst search_ext.simps) (simp add: EXTENSION_COUNT_def VALID_EXTENSIONS_def)
  have 1: "search_ext e 1 = (if e = ''.jpg'' then 1 else search_ext e 2)"
    by (subst search_ext.simps) (simp add: EXTENSION_COUNT_def VALID_EXTENSIONS_def numeral_2_eq_2)
  have 0: "search_ext e 0 = (if e = ''.png'' then 0 else search_ext e 1)"
    by (subst search_ext.simps) (simp add: EXTENSION_COUNT_def VALID_EXTENSIONS_def)
  show ?thesis
    unfolding 0 1 2 3 4 5 by simp
qed

lemma search_ext_range: "- 1 \<le> search_ext e 0 \<and> search_ext e 0 < int EXTENSION_COUNT"
  by (simp add: search_ext_unfold EXTENSION_COUNT_def)

lemma search_ext_hit:
  "0 \<le> search_ext e 0 \<Longrightarrow> e = ext (VALID_EXTENSIONS ! nat (search_ext e 0))"
  by (simp add: search_ext_unfold VALID_EXTENSIONS_def split: if_splits)

lemma search_ext_registry:
  "i < EXTENSION_COUNT \<Longrightarrow> search_ext (ext (VALID_EXTENSIONS ! i)) 0 = int i"
proof -
  assume "i < EXTENSION_COUNT"
  then have "i = 0 \<or> i = 1 \<or> i = 2 \<or> i = 3 \<or> i = 4 \<or> i = 5"
    unfolding EXTENSION_COUNT_def by arith
  then show ?thesis
    by (elim disjE) (simp_all add: search_ext_unfold VALID_EXTENSIONS_def)
qed

lemma registry_ext_shape:
  "i < EXTENSION_COUNT \<Longrightarrow>
   \<exists>e. ext (VALID_EXTENSIONS ! i) = CHR ''.'' # e \<and> CHR ''.'' \<notin> set e"
proof -
  assume "i < EXTENSION_COUNT"
  then have "i = 0 \<or> i = 1 \<or> i = 2 \<or> i = 3 \<or> i = 4 \<or> i = 5"
    unfolding EXTENSION_COUNT_def by arith
  then show ?thesis
    by (elim disjE) (simp_all add: VALID_EXTENSIONS_def)
qed

section \<open>What \<open>hasValidExtension\<close> returns\<close>

lemma substr_suffix:
  assumes "a \<noteq> []"
  shows "substr (a @ t) (int (length a)) (int (length (a @ t)) - 1) = Inr t"
proof -
  have "0 < length a" using assms by simp
  then have "length t \<le> nat (int (length (a @ t)) - 1)"
    unfolding length_append by linarith
  then show ?thesis by (simp add: substr_def in_size_def)
qed

lemma hasValidExtension_dot:
  assumes "a \<noteq> []" and "CHR ''.'' \<notin> set e"
  shows "hasValidExtension (a @ CHR ''.'' # e) = Inr (search_ext (CHR ''.'' # e) 0)"
proof -
  let ?s = "a @ CHR ''.'' # e"
  have "int (length ?s) - 1 = int (length a + length e)" by simp
  then have "locate_dot ?s (int (length ?s) - 1) = Inr (int (length a))"
    using locate_dot_found [OF assms(2), of "length e" a] by simp
  moreover have "int (length a) \<noteq> 0" using assms(1) by simp
  ultimately show ?thesis
    using substr_suffix [OF assms(1), of "CHR ''.'' # e"]
    by (simp add: hasValidExtension_def del: of_nat_add of_nat_Suc length_append list.size)
qed

lemma hasValidExtension_leading_dot:
  assumes "CHR ''.'' \<notin> set e"
  shows "hasValidExtension (CHR ''.'' # e) = Inr (- 2)"
proof -
  have "locate_dot ([] @ CHR ''.'' # e) (int (length ([] :: string) + length e)) = Inr (int (length ([] :: string)))"
    using assms by (intro locate_dot_found) simp_all
  then show ?thesis by (simp add: hasValidExtension_def)
qed

lemma hasValidExtension_no_dot:
  assumes "s \<noteq> []" and "CHR ''.'' \<notin> set s"
  shows "hasValidExtension s = Inl OutOfRange"
proof -
  obtain n where n: "length s = Suc n" using assms(1) by (cases s) auto
  then have "locate_dot s (int n) = Inl OutOfRange"
    using locate_dot_none_aux [OF assms(2), of n] by simp
  then show ?thesis using n assms(1) by (simp add: hasValidExtension_def)
qed

lemma hasValidExtension_valid_shape:
  assumes "hasValidExtension s = Inr v" and "0 \<le> v"
  shows "\<exists>a e. s = a @ CHR ''.'' # e \<and> a \<noteq> [] \<and> CHR ''.'' \<notin> set e \<and>
               v = search_ext (CHR ''.'' # e) 0"
proof (cases "CHR ''.'' \<in> set s")
  case False
  then show ?thesis
    using assms hasValidExtension_no_dot [of s]
    by (cases "s = []") (auto simp: hasValidExtension_def)
next
  case True
  then obtain a e where s: "s = a @ CHR ''.'' # e" and e: "CHR ''.'' \<notin> set e"
    by (auto dest: split_list_last)
  show ?thesis
  proof (cases "a = []")
    case True
    then show ?thesis using assms s hasValidExtension_leading_dot [OF e] by simp
  next
    case False
    then show ?thesis using assms s e hasValidExtension_dot [OF False e] by auto
  qed
qed

section \<open>What \<open>removeExtension\<close> returns\<close>

lemma removeExtension_dot:
  assumes "a \<noteq> []" and "CHR ''.'' \<notin> set e"
  shows "removeExtension (a @ CHR ''.'' # e) = Inr (True, a)"
proof -
  let ?s = "a @ CHR ''.'' # e"
  have "int (length ?s) - 1 = int (length a + length e)" by simp
  then have "locate_ext ?s (int (length ?s) - 1) = Inr (int (length a))"
    using locate_ext_found [OF assms(2) assms(1), of "length e"] by simp
  moreover have "int (length a) \<noteq> 0" using assms(1) by simp
  moreover have "erase ?s (int (length a)) (int (length ?s) - int (length a)) = Inr a"
    by (simp add: erase_def in_size_def)
  ultimately show ?thesis
    by (simp add: removeExtension_def Let_def del: of_nat_add of_nat_Suc length_append list.size)
qed

lemma removeExtension_none:
  assumes "CHR ''.'' \<notin> set (tl s)"
  shows "removeExtension s = Inr (False, s)"
proof (cases s)
  case Nil
  then show ?thesis by (simp add: removeExtension_def)
next
  case (Cons x xs)
  then have "locate_ext s (int (length xs)) = Inr 0"
    using locate_ext_none [OF assms, of "length xs"] by simp
  then show ?thesis using Cons by (simp add: removeExtension_def Let_def)
qed

section \<open>The digit scan of \<open>generateFilename\<close>\<close>

lemma collect_digits_negative: "collect_digits seed (- 1) m = Inr (- 1, m)"
  by (subst collect_digits.simps) simp

lemma collect_digits_int:
  "collect_digits seed (int k) m =
    (if k < length seed then
       (if isdigit (seed ! k) then collect_digits seed (int k - 1) (seed ! k # m)
        else Inr (int k, m))
     else Inl OutOfRange)"
  by (subst collect_digits.simps) (simp add: at_def)

lemma collect_digits_run:
  assumes "\<forall>c\<in>set ds. isdigit c" and "pre = [] \<or> \<not> isdigit (last pre)"
  shows "collect_digits (pre @ ds @ rest) (int (length pre + length ds) - 1) acc =
           Inr (int (length pre) - 1, ds @ acc)"
  using assms(1)
proof (induction ds arbitrary: acc rest rule: rev_induct)
  case Nil
  show ?case
  proof (cases pre rule: rev_cases)
    case Nil
    then show ?thesis by (simp add: collect_digits_negative)
  next
    case (snoc b x)
    then have "\<not> isdigit x" using assms(2) by simp
    moreover have "int (length pre + length ([] :: string)) - 1 = int (length b)"
      using snoc by simp
    ultimately show ?thesis
      using snoc by (simp only: collect_digits_int) (simp add: nth_append)
  qed
next
  case (snoc x ds)
  have idx: "int (length pre + length (ds @ [x])) - 1 = int (length pre + length ds)"
    by simp
  have seed: "pre @ (ds @ [x]) @ rest = pre @ ds @ (x # rest)"
    by simp
  have nth: "(pre @ ds @ (x # rest)) ! (length pre + length ds) = x"
    by (simp add: nth_append)
  have x: "isdigit x" and ds: "\<forall>c\<in>set ds. isdigit c"
    using snoc.prems by simp_all
  have ih: "collect_digits (pre @ ds @ (x # rest)) (int (length pre + length ds) - 1) (x # acc) =
              Inr (int (length pre) - 1, ds @ x # acc)"
    using snoc.IH [OF ds, of "x # rest" "x # acc"] .
  show ?case
    unfolding idx seed using x ih nth
    by (subst collect_digits_int) simp
qed

lemma decimal_snoc: "decimal (ds @ [c]) = 10 * decimal ds + digit_val c"
  by (simp add: decimal_def)

lemma stoi_digits:
  assumes "ds \<noteq> []" and "\<forall>c\<in>set ds. isdigit c"
  shows "stoi ds = (if decimal ds > INT_MAX then Inl OutOfRange else Inr (decimal ds))"
proof -
  have tw: "takeWhile isdigit ds = ds" using assms(2) by (simp add: takeWhile_eq_all_conv)
  show ?thesis using assms(1) by (simp add: stoi_def Let_def tw)
qed

lemma increment_digits:
  assumes "ds \<noteq> []" and "\<forall>c\<in>set ds. isdigit c" and "decimal ds < INT_MAX"
  shows "increment ds = Inr (decimal ds + 1)"
  using assms by (simp add: increment_def stoi_digits)

section \<open>What \<open>generateFilename\<close> returns on a seed with a valid extension\<close>

text \<open>
  The seed is \<open>pre @ ds @ CHR ''.'' # e\<close>: \<open>e\<close> has no dot, \<open>ds\<close> is the run of digits
  that ends at the dot and \<open>pre\<close> is what comes before the run.
\<close>

lemma generateFilename_prefix:
  assumes a: "pre @ ds \<noteq> []" and e: "CHR ''.'' \<notin> set e"
    and v: "0 \<le> search_ext (CHR ''.'' # e) 0"
    and ds: "\<forall>c\<in>set ds. isdigit c" and pre: "pre = [] \<or> \<not> isdigit (last pre)"
  shows "generateFilename (pre @ ds @ CHR ''.'' # e) =
    (if ds = [] then insert_str (pre @ ds @ CHR ''.'' # e) (int (length (pre @ ds))) ''_1''
     else if int (length pre) - 1 > 0 then
       (case at (pre @ ds @ CHR ''.'' # e) (int (length pre) - 1) of
          Inl err \<Rightarrow> Inl err
        | Inr u \<Rightarrow>
            if u = CHR ''_'' then
              (case increment ds of
                 Inl err \<Rightarrow> Inl err
               | Inr n \<Rightarrow>
                   replace_str (pre @ ds @ CHR ''.'' # e) (int (length pre) - 1)
                     (int (length (pre @ ds)) - (int (length pre) - 1)) (''_'' @ to_string n))
            else Inr (pre @ ds @ CHR ''.'' # e))
     else Inr (pre @ ds @ CHR ''.'' # e))"
proof -
  let ?a = "pre @ ds"
  let ?s = "pre @ ds @ CHR ''.'' # e"
  have s: "?s = ?a @ CHR ''.'' # e" by simp
  have ne: "?s \<noteq> []" by simp
  have hv: "hasValidExtension ?s = Inr (search_ext (CHR ''.'' # e) 0)"
    unfolding s by (rule hasValidExtension_dot [OF a e])
  have idx: "int (length (?a @ CHR ''.'' # e)) - 1 = int (length ?a + length e)" by simp
  have le: "locate_ext ?s (int (length ?s) - 1) = Inr (int (length ?a))"
    unfolding s idx by (rule locate_ext_found [OF e a]) simp
  obtain b x where bx: "?a = b @ [x]" using a by (cases ?a rule: rev_cases) auto
  then have "int (length ?a) - 1 = int (length b)" by simp
  moreover have "(?a @ CHR ''.'' # e) ! length b = x" unfolding bx by (simp add: nth_append)
  ultimately have at_last: "at ?s (int (length ?a) - 1) = Inr (last ?a)"
    unfolding s using bx by (simp add: at_int)
  have dig: "isdigit (last ?a) \<longleftrightarrow> ds \<noteq> []"
    using a ds pre by (cases "ds = []") auto
  have cd: "collect_digits ?s (int (length ?a) - 1) [] = Inr (int (length pre) - 1, ds)"
    using collect_digits_run [OF ds pre, of "CHR ''.'' # e" "[]"] by simp
  have "generateFilename ?s =
    (if ds \<noteq> [] then
       (if int (length pre) - 1 > 0 then
          (case at ?s (int (length pre) - 1) of
             Inl err \<Rightarrow> Inl err
           | Inr u \<Rightarrow>
               if u = CHR ''_'' then
                 (case increment ds of
                    Inl err \<Rightarrow> Inl err
                  | Inr n \<Rightarrow>
                      replace_str ?s (int (length pre) - 1)
                        (int (length ?a) - (int (length pre) - 1)) (''_'' @ to_string n))
               else Inr ?s)
        else Inr ?s)
     else insert_str ?s (int (length ?a)) ''_1'')"
    by (simp only: generateFilename_def ne hv v le at_last dig cd if_False if_True
          not_True_eq_False sum.case prod.case)
  then show ?thesis by simp
qed

lemma insert_str_boundary:
  "insert_str (a @ t) (int (length a)) m = Inr (a @ m @ t)"
  by (simp add: insert_str_def in_size_def)

lemma replace_str_middle:
  "replace_str (p @ u # ds @ t) (int (length p))
     (int (length ((p @ [u]) @ ds)) - int (length p)) m = Inr (p @ m @ t)"
proof -
  have a: "in_size (p @ u # ds @ t) (int (length p))"
    by (simp add: in_size_def)
  have b: "nat (int (length ((p @ [u]) @ ds)) - int (length p)) = Suc (length ds)"
    by simp
  show ?thesis
    by (simp only: replace_str_def a b if_True) simp
qed

lemma generateFilename_no_digits:
  assumes "a \<noteq> []" and "CHR ''.'' \<notin> set e" and "0 \<le> search_ext (CHR ''.'' # e) 0"
    and "\<not> isdigit (last a)"
  shows "generateFilename (a @ CHR ''.'' # e) = Inr (a @ ''_1'' @ CHR ''.'' # e)"
  using generateFilename_prefix [of a "[]" e] assms insert_str_boundary [of a "CHR ''.'' # e" "''_1''"]
  by simp

lemma generateFilename_suffix:
  assumes p: "p \<noteq> []" and e: "CHR ''.'' \<notin> set e"
    and v: "0 \<le> search_ext (CHR ''.'' # e) 0"
    and ds: "ds \<noteq> []" "\<forall>c\<in>set ds. isdigit c" and u: "\<not> isdigit u"
  shows "generateFilename (p @ u # ds @ CHR ''.'' # e) =
    (if u = CHR ''_'' then
       (case increment ds of
          Inl err \<Rightarrow> Inl err
        | Inr n \<Rightarrow> Inr (p @ CHR ''_'' # to_string n @ CHR ''.'' # e))
     else Inr (p @ u # ds @ CHR ''.'' # e))"
proof -
  let ?pre = "p @ [u]"
  let ?s = "?pre @ ds @ CHR ''.'' # e"
  have pos: "int (length ?pre) - 1 = int (length p)" by simp
  have gt: "0 < int (length p)" using p by simp
  have at_u: "at ?s (int (length p)) = Inr u" by (simp add: at_int nth_append)
  have rep: "\<And>m. replace_str ?s (int (length p)) (int (length (?pre @ ds)) - int (length p)) m
               = Inr (p @ m @ CHR ''.'' # e)"
    using replace_str_middle [of p u ds "CHR ''.'' # e"] by simp
  have "generateFilename ?s =
    (if u = CHR ''_'' then
       (case increment ds of
          Inl err \<Rightarrow> Inl err
        | Inr n \<Rightarrow> Inr (p @ (''_'' @ to_string n) @ CHR ''.'' # e))
     else Inr ?s)"
    using generateFilename_prefix [of ?pre ds e, OF _ e v ds(2)] u
    by (simp only: pos gt at_u rep ds(1) if_False if_True sum.case) simp
  then show ?thesis by (simp split: sum.splits)
qed

lemma generateFilename_bare_digits:
  assumes e: "CHR ''.'' \<notin> set e" and v: "0 \<le> search_ext (CHR ''.'' # e) 0"
    and ds: "ds \<noteq> []" "\<forall>c\<in>set ds. isdigit c" and pre: "length pre \<le> 1"
    and u: "pre = [] \<or> \<not> isdigit (last pre)"
  shows "generateFilename (pre @ ds @ CHR ''.'' # e) = Inr (pre @ ds @ CHR ''.'' # e)"
proof -
  have "\<not> 0 < int (length pre) - 1" using pre by simp
  then show ?thesis
    using generateFilename_prefix [of pre ds e, OF _ e v ds(2) u] ds(1)
    by (simp only: if_False) simp
qed

section \<open>Valid seeds, totality of \<open>removeExtension\<close>, decimal digits\<close>

lemma valid_seed_stem:
  assumes "hasValidExtension (a @ CHR ''.'' # e) = Inr i" and "0 \<le> i" and "CHR ''.'' \<notin> set e"
  shows "a \<noteq> [] \<and> search_ext (CHR ''.'' # e) 0 = i"
proof (cases "a = []")
  case True
  then show ?thesis using assms hasValidExtension_leading_dot [of e] by simp
next
  case False
  then show ?thesis using assms hasValidExtension_dot [of a e] by simp
qed

lemma removeExtension_total: "\<exists>r f. removeExtension s = Inr (r, f)"
proof (cases "CHR ''.'' \<in> set (tl s)")
  case False
  then show ?thesis using removeExtension_none by blast
next
  case True
  then obtain a e where t: "tl s = a @ CHR ''.'' # e" and e: "CHR ''.'' \<notin> set e"
    by (auto dest: split_list_last)
  then obtain x where "s = (x # a) @ CHR ''.'' # e"
    by (cases s) auto
  then have "removeExtension s = Inr (True, x # a)"
    using removeExtension_dot [of "x # a" e] e by simp
  then show ?thesis by blast
qed

lemma digit_roundtrip:
  assumes "0 \<le> d" and "d < 10"
  shows "digit_val (digit_char d) = d"
proof -
  have "d = 0 \<or> d = 1 \<or> d = 2 \<or> d = 3 \<or> d = 4 \<or> d = 5 \<or> d = 6 \<or> d = 7 \<or> d = 8 \<or> d = 9"
    using assms by arith
  then show ?thesis
    by (elim disjE) (simp_all add: digit_val_def digit_char_def)
qed

lemma decimal_to_string_digits: "0 \<le> n \<Longrightarrow> decimal (to_string_digits n) = n"
proof (induction n rule: to_string_digits.induct)
  case (1 n)
  show ?case
  proof (cases "n < 10")
    case True
    then show ?thesis
      using "1.prems" by (subst to_string_digits.simps) (simp add: decimal_def digit_roundtrip)
  next
    case False
    then have "decimal (to_string_digits (n div 10)) = n div 10"
      using "1.IH" "1.prems" by simp
    moreover have "digit_val (digit_char (n mod 10)) = n mod 10"
      by (rule digit_roundtrip) simp_all
    ultimately show ?thesis
      using False by (subst to_string_digits.simps) (simp add: decimal_snoc)
  qed
qed

lemma decimal_nonneg: "\<forall>c\<in>set ds. isdigit c \<Longrightarrow> 0 \<le> decimal ds"
proof (induction ds rule: rev_induct)
  case Nil
  show ?case by (simp add: decimal_def)
next
  case (snoc c ds)
  then show ?case by (simp add: decimal_snoc digit_val_def isdigit_def)
qed

lemma decimal_to_string: "0 \<le> n \<Longrightarrow> decimal (to_string n) = n"
  by (simp add: to_string_def decimal_to_string_digits)

section \<open>The extension survives \<open>generateFilename\<close>\<close>

text \<open>Every stem is a prefix followed by its longest final run of digits.\<close>

lemma digit_run_split:
  "\<exists>pre ds. a = pre @ ds \<and> (\<forall>c\<in>set ds. isdigit c) \<and> (pre = [] \<or> \<not> isdigit (last pre))"
proof -
  let ?ds = "rev (takeWhile isdigit (rev a))"
  let ?pre = "rev (dropWhile isdigit (rev a))"
  have "?pre @ ?ds = rev (takeWhile isdigit (rev a) @ dropWhile isdigit (rev a))"
    by (simp only: rev_append)
  then have "a = ?pre @ ?ds" by simp
  moreover have "\<forall>c\<in>set ?ds. isdigit c"
    by (auto dest: set_takeWhileD)
  moreover have "?pre = [] \<or> \<not> isdigit (last ?pre)"
  proof (cases "dropWhile isdigit (rev a) = []")
    case True
    then show ?thesis by simp
  next
    case False
    then show ?thesis using hd_dropWhile [OF False] by (simp add: last_rev)
  qed
  ultimately show ?thesis by blast
qed

lemma generateFilename_keeps_extension:
  assumes a: "a \<noteq> []" and e: "CHR ''.'' \<notin> set e"
    and v: "0 \<le> search_ext (CHR ''.'' # e) 0"
    and r: "generateFilename (a @ CHR ''.'' # e) = Inr r"
  shows "\<exists>a'. a' \<noteq> [] \<and> r = a' @ CHR ''.'' # e"
proof -
  obtain pre ds where split: "a = pre @ ds" and ds: "\<forall>c\<in>set ds. isdigit c"
    and pre: "pre = [] \<or> \<not> isdigit (last pre)"
    using digit_run_split by blast
  show ?thesis
  proof (cases "ds = []")
    case True
    then have "\<not> isdigit (last a)" using split pre a by auto
    then have "r = (a @ ''_1'') @ CHR ''.'' # e"
      using generateFilename_no_digits [OF a e v] r by simp
    then show ?thesis by blast
  next
    case False
    show ?thesis
    proof (cases "length pre \<le> 1")
      case True
      then have "r = a @ CHR ''.'' # e"
        using generateFilename_bare_digits [OF e v False ds True pre] r split by simp
      then show ?thesis using a by blast
    next
      case long: False
      then obtain p u where pu: "pre = p @ [u]" and p: "p \<noteq> []"
        by (cases pre rule: rev_cases) auto
      then have u: "\<not> isdigit u" using pre by simp
      have seed: "a @ CHR ''.'' # e = p @ u # ds @ CHR ''.'' # e"
        using split pu by simp
      note gen = generateFilename_suffix [OF p e v False ds u]
      show ?thesis
      proof (cases "u = CHR ''_''")
        case False
        then have "r = a @ CHR ''.'' # e" using gen r seed by simp
        then show ?thesis using a by blast
      next
        case True
        then obtain n where "r = (p @ CHR ''_'' # to_string n) @ CHR ''.'' # e"
          using gen r seed by (cases "increment ds") auto
        then show ?thesis by blast
      qed
    qed
  qed
qed

section \<open>The claims\<close>

text \<open>
  C1. The claim asks \<open>saveImage\<close> to read the registry at the index of the extension
  of the filename it saves. Whenever \<open>hasValidExtension\<close> returns a negative code for
  the filename of an initialized image, \<open>saveImage\<close> rewrites the filename, leaves the
  code in \<open>ext_idx\<close>, and reads the registry at that negative index.
\<close>

theorem saveImage_reads_registry_at_error_code:
  assumes "filename \<noteq> []" and "hasValidExtension filename = Inr i" and "i < 0"
  shows "saveImage imwrite True filename = Inl (ArrayOutOfBounds i)"
proof -
  obtain r f where rm: "removeExtension filename = Inr (r, f)"
    using removeExtension_total by blast
  obtain r' f' where rm': "removeExtension f = Inr (r', f')"
    using removeExtension_total by blast
  have "saveImage_extension True filename = Inr (True, i, f' @ ''.png'')"
    using assms(2,3) by (simp add: saveImage_extension_def addExtension_def rm rm')
  then show ?thesis
    using assms(1,3) by (simp add: saveImage_def registry_at_def)
qed

theorem saveImage_reads_registry_at_error_code_witness:
  "saveImage (\<lambda>c. True) True ''photo.bmp'' = Inl (ArrayOutOfBounds (- 1))"
proof -
  have ne: "''photo.bmp'' \<noteq> []"
    by simp
  have code: "hasValidExtension ''photo.bmp'' = Inr (- 1)"
    by code_simp
  show ?thesis
    using saveImage_reads_registry_at_error_code [OF ne code] by simp
qed

text \<open>
  C2. The claim asks every operation to return normally on every string. On a
  non-empty filename without a dot \<open>hasValidExtension\<close> throws, and so does
  \<open>generateFilename\<close>, which calls it first.
\<close>

theorem operations_throw_without_dot:
  assumes "seed \<noteq> []" and "CHR ''.'' \<notin> set seed"
  shows "generateFilename seed = Inl OutOfRange"
  using assms by (simp add: generateFilename_def hasValidExtension_no_dot)

theorem operations_throw_without_dot_witness:
  "generateFilename ''photo'' = Inl OutOfRange"
proof -
  have "''photo'' \<noteq> []" and "CHR ''.'' \<notin> set ''photo''"
    by simp_all
  then show ?thesis by (rule operations_throw_without_dot)
qed

text \<open>
  C3, as stated, fails on the code: the digits are read by \<open>std::stoi\<close> into an \<open>int\<close>,
  and a number above \<open>2^31 - 1\<close> makes it throw \<open>std::out_of_range\<close>.
\<close>

theorem generateFilename_large_suffix_counterexample:
  "generateFilename ''photo_2147483648.png'' = Inl OutOfRange"
  by code_simp

text \<open>
  C3, amended. For every seed with a valid extension whose stem ends in \<open>_\<close> followed
  by a run of digits \<open>ds\<close>, with something before the \<open>_\<close> and the number \<open>N\<close> written by
  \<open>ds\<close> below \<open>2^31 - 1\<close>, \<open>generateFilename\<close> returns the seed with the run replaced by
  the decimal digits of \<open>N + 1\<close>; the text before the run, the \<open>_\<close> and the extension
  stay.
\<close>

theorem generateFilename_increments_suffix:
  assumes "hasValidExtension (pre @ CHR ''_'' # ds @ CHR ''.'' # e) = Inr i" and "0 \<le> i"
    and "CHR ''.'' \<notin> set e" and "pre \<noteq> []" and "ds \<noteq> []"
    and "\<forall>c\<in>set ds. isdigit c" and "decimal ds < INT_MAX"
  shows "generateFilename (pre @ CHR ''_'' # ds @ CHR ''.'' # e) =
           Inr (pre @ CHR ''_'' # to_string (decimal ds + 1) @ CHR ''.'' # e) \<and>
         decimal (to_string (decimal ds + 1)) = decimal ds + 1"
proof -
  have "hasValidExtension ((pre @ CHR ''_'' # ds) @ CHR ''.'' # e) = Inr i"
    using assms(1) by simp
  then have v: "0 \<le> search_ext (CHR ''.'' # e) 0"
    using valid_seed_stem [of "pre @ CHR ''_'' # ds" e i] assms(2,3) by simp
  have u: "\<not> isdigit CHR ''_''"
    by (simp add: isdigit_def)
  have "generateFilename (pre @ CHR ''_'' # ds @ CHR ''.'' # e) =
          Inr (pre @ CHR ''_'' # to_string (decimal ds + 1) @ CHR ''.'' # e)"
    using generateFilename_suffix [OF assms(4) assms(3) v assms(5) assms(6) u]
      increment_digits [OF assms(5) assms(6) assms(7)]
    by simp
  moreover have "0 \<le> decimal ds + 1"
    using decimal_nonneg [OF assms(6)] by simp
  ultimately show ?thesis
    by (simp add: decimal_to_string)
qed

theorem generateFilename_increments_suffix_witness:
  "generateFilename ''photo_1.png'' = Inr ''photo_2.png'' \<and>
   generateFilename ''photo_9.png'' = Inr ''photo_10.png''"
proof -
  have nodot: "CHR ''.'' \<notin> set ''png''" and pre: "''photo'' \<noteq> []"
    by simp_all
  have v1: "hasValidExtension (''photo'' @ CHR ''_'' # ''1'' @ CHR ''.'' # ''png'') = Inr 0"
    and v9: "hasValidExtension (''photo'' @ CHR ''_'' # ''9'' @ CHR ''.'' # ''png'') = Inr 0"
    by code_simp+
  have d1: "''1'' \<noteq> []" "\<forall>c\<in>set ''1''. isdigit c" "decimal ''1'' < INT_MAX"
    and d9: "''9'' \<noteq> []" "\<forall>c\<in>set ''9''. isdigit c" "decimal ''9'' < INT_MAX"
    by (simp_all add: isdigit_def decimal_def digit_val_def INT_MAX_def)
  have r1: "''photo'' @ CHR ''_'' # to_string (decimal ''1'' + 1) @ CHR ''.'' # ''png''
              = ''photo_2.png''"
    and r9: "''photo'' @ CHR ''_'' # to_string (decimal ''9'' + 1) @ CHR ''.'' # ''png''
              = ''photo_10.png''"
    by code_simp+
  have "generateFilename (''photo'' @ CHR ''_'' # ''1'' @ CHR ''.'' # ''png'') = Inr ''photo_2.png''"
    using generateFilename_increments_suffix [OF v1 _ nodot pre d1] unfolding r1 by simp
  moreover
  have "generateFilename (''photo'' @ CHR ''_'' # ''9'' @ CHR ''.'' # ''png'') = Inr ''photo_10.png''"
    using generateFilename_increments_suffix [OF v9 _ nodot pre d9] unfolding r9 by simp
  ultimately show ?thesis by simp
qed

text \<open>
  C4. A seed with a valid extension (\<open>hasValidExtension\<close> returns an index, not a
  negative code) whose character just before the last dot is not a decimal digit gets
  \<open>_1\<close> inserted immediately before that dot, and no exception is thrown.
\<close>

theorem generateFilename_first_modification:
  assumes "hasValidExtension (stem @ CHR ''.'' # e) = Inr i" and "0 \<le> i"
    and "CHR ''.'' \<notin> set e" and "\<not> isdigit (last stem)"
  shows "generateFilename (stem @ CHR ''.'' # e) = Inr (stem @ ''_1'' @ CHR ''.'' # e)"
proof -
  have "stem \<noteq> []" and "0 \<le> search_ext (CHR ''.'' # e) 0"
    using valid_seed_stem [OF assms(1-3)] assms(2) by simp_all
  then show ?thesis
    using assms(3,4) by (simp add: generateFilename_no_digits)
qed

theorem generateFilename_first_modification_witness:
  "generateFilename ''photo.png'' = Inr ''photo_1.png''"
proof -
  have valid: "hasValidExtension (''photo'' @ CHR ''.'' # ''png'') = Inr 0"
    by code_simp
  have nodot: "CHR ''.'' \<notin> set ''png''"
    by simp
  have nodigit: "\<not> isdigit (last ''photo'')"
    by (simp add: isdigit_def)
  show ?thesis
    using generateFilename_first_modification [OF valid _ nodot nodigit] by simp
qed

text \<open>
  C5. The claim asks for \<open>-2\<close> on every non-empty filename without a dot. The code
  throws \<open>std::out_of_range\<close> there: the loop that looks for the dot has no lower bound
  and steps to index \<open>-1\<close>. Only the second half of the claim holds: when the only dot
  is the first character, the result is \<open>-2\<close>.
\<close>

theorem hasValidExtension_without_dot_throws:
  "(s \<noteq> [] \<and> CHR ''.'' \<notin> set s \<longrightarrow> hasValidExtension s = Inl OutOfRange) \<and>
   (CHR ''.'' \<notin> set e \<longrightarrow> hasValidExtension (CHR ''.'' # e) = Inr (- 2))"
  using hasValidExtension_no_dot [of s] hasValidExtension_leading_dot [of e] by blast

theorem hasValidExtension_without_dot_throws_witness:
  "hasValidExtension ''README'' = Inl OutOfRange \<and> hasValidExtension ''.hidden'' = Inr (- 2)"
  using hasValidExtension_without_dot_throws [of "''README''" "''hidden''"] by simp

text \<open>
  C6, as stated, fails on the code: a filename that is nothing but a registry extension
  has its last dot at position 0, and \<open>hasValidExtension\<close> answers \<open>-2\<close> for it, as its
  header comment says (``an extension and nothing else'').
\<close>

theorem hasValidExtension_bare_extension_counterexample:
  "ext (VALID_EXTENSIONS ! 0) = ''.png'' \<and> hasValidExtension ''.png'' = Inr (- 2)"
  by code_simp

text \<open>
  C6, amended. \<open>hasValidExtension\<close> returns the registry index \<open>i\<close> for every
  filename made of a non-empty stem followed by the extension of the registry entry
  \<open>i\<close>, and for no other filename: whenever it returns an index \<open>v\<close> (a result that is
  not negative), \<open>v\<close> is below \<open>EXTENSION_COUNT\<close> and the filename is a non-empty stem
  followed by exactly the extension of entry \<open>v\<close>, character for character.
\<close>

theorem hasValidExtension_registry_index:
  "(i < EXTENSION_COUNT \<and> stem \<noteq> [] \<longrightarrow>
      hasValidExtension (stem @ ext (VALID_EXTENSIONS ! i)) = Inr (int i)) \<and>
   (hasValidExtension fn = Inr v \<and> 0 \<le> v \<longrightarrow>
      v < int EXTENSION_COUNT \<and>
      (\<exists>s. s \<noteq> [] \<and> fn = s @ ext (VALID_EXTENSIONS ! nat v)))"
proof (intro conjI impI)
  assume "i < EXTENSION_COUNT \<and> stem \<noteq> []"
  then have i: "i < EXTENSION_COUNT" and stem: "stem \<noteq> []"
    by simp_all
  obtain e where e: "ext (VALID_EXTENSIONS ! i) = CHR ''.'' # e" "CHR ''.'' \<notin> set e"
    using registry_ext_shape [OF i] by blast
  have "hasValidExtension (stem @ CHR ''.'' # e) = Inr (search_ext (CHR ''.'' # e) 0)"
    using stem e(2) by (rule hasValidExtension_dot)
  then show "hasValidExtension (stem @ ext (VALID_EXTENSIONS ! i)) = Inr (int i)"
    using search_ext_registry [OF i] e(1) by simp
next
  assume "hasValidExtension fn = Inr v \<and> 0 \<le> v"
  then have hv: "hasValidExtension fn = Inr v" and v: "0 \<le> v"
    by simp_all
  obtain a e where fn: "fn = a @ CHR ''.'' # e" and a: "a \<noteq> []"
    and s: "v = search_ext (CHR ''.'' # e) 0"
    using hasValidExtension_valid_shape [OF hv v] by blast
  show "v < int EXTENSION_COUNT"
    using search_ext_range [of "CHR ''.'' # e"] s by simp
  have "CHR ''.'' # e = ext (VALID_EXTENSIONS ! nat v)"
    using search_ext_hit [of "CHR ''.'' # e"] v s by simp
  then show "\<exists>s. s \<noteq> [] \<and> fn = s @ ext (VALID_EXTENSIONS ! nat v)"
    using fn a by auto
qed

theorem hasValidExtension_registry_index_witness:
  "hasValidExtension ''photo.jpeg'' = Inr 2 \<and>
   (\<exists>s. s \<noteq> [] \<and> ''photo.jpeg'' = s @ ''.jpeg'') \<and>
   hasValidExtension ''photo.PNG'' = Inr (- 1) \<and>
   hasValidExtension ''photo.pngx'' = Inr (- 1)"
proof -
  have i: "(2::nat) < EXTENSION_COUNT \<and> ''photo'' \<noteq> []"
    by (simp add: EXTENSION_COUNT_def)
  have e: "ext (VALID_EXTENSIONS ! 2) = ''.jpeg''"
    by (simp add: VALID_EXTENSIONS_def)
  note inst = hasValidExtension_registry_index [of 2 "''photo''" "''photo.jpeg''" 2]
  have accept: "hasValidExtension ''photo.jpeg'' = Inr 2"
    using inst i e by simp
  then have "\<exists>s. s \<noteq> [] \<and> ''photo.jpeg'' = s @ ext (VALID_EXTENSIONS ! nat 2)"
    using inst by simp
  then have exact: "\<exists>s. s \<noteq> [] \<and> ''photo.jpeg'' = s @ ''.jpeg''"
    using e by simp
  have reject: "hasValidExtension ''photo.PNG'' = Inr (- 1)"
    "hasValidExtension ''photo.pngx'' = Inr (- 1)"
    by code_simp+
  show ?thesis
    using accept exact reject by blast
qed

text \<open>
  C7. \<open>removeExtension\<close> on a filename with a dot after position 0 removes exactly the
  text from the last dot to the end and returns \<open>true\<close>; on a filename that is empty,
  has no dot, or has its only dot at position 0, it returns \<open>false\<close> and leaves the
  filename as it was. It never throws.
\<close>

theorem removeExtension_last_dot_only:
  "(a \<noteq> [] \<and> CHR ''.'' \<notin> set e \<longrightarrow> removeExtension (a @ CHR ''.'' # e) = Inr (True, a)) \<and>
   (CHR ''.'' \<notin> set (tl s) \<longrightarrow> removeExtension s = Inr (False, s))"
  using removeExtension_dot [of a e] removeExtension_none [of s] by blast

theorem removeExtension_last_dot_only_witness:
  "removeExtension ''archive.tar.png'' = Inr (True, ''archive.tar'') \<and>
   removeExtension ''.hidden'' = Inr (False, ''.hidden'')"
  using removeExtension_last_dot_only [of "''archive.tar''" "''png''" "''.hidden''"] by simp

text \<open>
  C8. The claim asks the save path to turn every non-empty filename without a valid
  extension into the same name with \<open>.png\<close> in place of the invalid extension. On a
  filename without a dot the validation throws before anything is appended; on a
  filename with two dots both extensions are removed, since \<open>saveImage\<close> calls
  \<open>removeExtension\<close> and \<open>addExtension\<close> calls it again.
\<close>

theorem saveImage_extension_fails_to_normalise:
  "saveImage_extension True ''photo'' = Inl OutOfRange \<and>
   saveImage_extension True ''archive.tar.bmp'' = Inr (True, - 1, ''archive.png'')"
  by code_simp

text \<open>
  C9. A seed with a valid extension whose stem ends in a run of digits that is not
  preceded by an underscore after position 0 (the run is the whole stem, as in
  \<open>42.png\<close>, or the character before it is not \<open>_\<close>, or that \<open>_\<close> is the first character)
  is returned unchanged, and no exception is thrown.
\<close>

theorem generateFilename_degenerate_stem:
  assumes "hasValidExtension (pre @ ds @ CHR ''.'' # e) = Inr i" and "0 \<le> i"
    and "CHR ''.'' \<notin> set e" and "ds \<noteq> []" and "\<forall>c\<in>set ds. isdigit c"
    and "pre = [] \<or> (\<not> isdigit (last pre) \<and> (length pre = 1 \<or> last pre \<noteq> CHR ''_''))"
  shows "generateFilename (pre @ ds @ CHR ''.'' # e) = Inr (pre @ ds @ CHR ''.'' # e)"
proof -
  have "hasValidExtension ((pre @ ds) @ CHR ''.'' # e) = Inr i"
    using assms(1) by simp
  then have v: "0 \<le> search_ext (CHR ''.'' # e) 0"
    using valid_seed_stem [of "pre @ ds" e i] assms(2,3) by simp
  show ?thesis
  proof (cases "length pre \<le> 1")
    case True
    have "pre = [] \<or> \<not> isdigit (last pre)"
      using assms(6) by blast
    with True show ?thesis
      using generateFilename_bare_digits [OF assms(3) v assms(4) assms(5)] by blast
  next
    case False
    then obtain p u where pu: "pre = p @ [u]" and p: "p \<noteq> []"
      by (cases pre rule: rev_cases) auto
    then have u: "\<not> isdigit u" "u \<noteq> CHR ''_''"
      using assms(6) False by auto
    show ?thesis
      using generateFilename_suffix [OF p assms(3) v assms(4) assms(5) u(1)] u(2) pu
      by simp
  qed
qed

theorem generateFilename_degenerate_stem_witness:
  "generateFilename ''42.png'' = Inr ''42.png'' \<and>
   generateFilename ''img7.png'' = Inr ''img7.png''"
proof -
  have nodot: "CHR ''.'' \<notin> set ''png''"
    by simp
  have v42: "hasValidExtension ([] @ ''42'' @ CHR ''.'' # ''png'') = Inr 0"
    and v7: "hasValidExtension (''img'' @ ''7'' @ CHR ''.'' # ''png'') = Inr 0"
    by code_simp+
  have d42: "''42'' \<noteq> []" "\<forall>c\<in>set ''42''. isdigit c"
    and d7: "''7'' \<noteq> []" "\<forall>c\<in>set ''7''. isdigit c"
    by (simp_all add: isdigit_def)
  have p7: "''img'' = [] \<or> (\<not> isdigit (last ''img'') \<and>
              (length ''img'' = 1 \<or> last ''img'' \<noteq> CHR ''_''))"
    by (simp add: isdigit_def)
  show ?thesis
    using generateFilename_degenerate_stem [OF v42 _ nodot d42]
      generateFilename_degenerate_stem [OF v7 _ nodot d7 p7]
    by simp
qed

text \<open>
  C10. Whenever \<open>generateFilename\<close> returns a non-empty filename, the result ends in
  the same registry extension as the seed, and \<open>hasValidExtension\<close> returns the same
  registry index for the result as for the seed.
\<close>

theorem generateFilename_preserves_extension:
  assumes "generateFilename seed = Inr r" and "r \<noteq> []"
  shows "\<exists>i stem stem' e. 0 \<le> i \<and> i < int EXTENSION_COUNT \<and>
           e = ext (VALID_EXTENSIONS ! nat i) \<and> seed = stem @ e \<and> r = stem' @ e \<and>
           hasValidExtension seed = Inr i \<and> hasValidExtension r = Inr i"
proof -
  have ne: "seed \<noteq> []"
    using assms by (auto simp: generateFilename_def)
  obtain v where hv: "hasValidExtension seed = Inr v"
    using assms(1) ne by (cases "hasValidExtension seed") (simp_all add: generateFilename_def)
  have v: "0 \<le> v"
  proof (rule ccontr)
    assume "\<not> 0 \<le> v"
    then have "generateFilename seed = Inr []"
      using ne hv by (simp add: generateFilename_def)
    then show False using assms by simp
  qed
  obtain a e where seed: "seed = a @ CHR ''.'' # e" and a: "a \<noteq> []"
    and e: "CHR ''.'' \<notin> set e" and s: "v = search_ext (CHR ''.'' # e) 0"
    using hasValidExtension_valid_shape [OF hv v] by blast
  have v': "0 \<le> search_ext (CHR ''.'' # e) 0"
    using v s by simp
  obtain a' where a': "a' \<noteq> []" and r: "r = a' @ CHR ''.'' # e"
    using generateFilename_keeps_extension [OF a e v'] assms(1) seed by blast
  have hr: "hasValidExtension r = Inr v"
    unfolding r s by (rule hasValidExtension_dot [OF a' e])
  have "v < int EXTENSION_COUNT"
    using search_ext_range [of "CHR ''.'' # e"] s by simp
  moreover have "CHR ''.'' # e = ext (VALID_EXTENSIONS ! nat v)"
    using search_ext_hit [OF v'] s by simp
  ultimately show ?thesis
    using v hv hr seed r by blast
qed

theorem generateFilename_preserves_extension_witness:
  "\<exists>stem stem'. ''photo_9.png'' = stem @ ''.png'' \<and> ''photo_10.png'' = stem' @ ''.png'' \<and>
     hasValidExtension ''photo_9.png'' = Inr 0 \<and> hasValidExtension ''photo_10.png'' = Inr 0"
proof -
  have gen: "generateFilename ''photo_9.png'' = Inr ''photo_10.png''"
    by code_simp
  have ne: "''photo_10.png'' \<noteq> []"
    by simp
  have h: "hasValidExtension ''photo_9.png'' = Inr 0"
    by code_simp
  obtain i stem stem' e where "e = ext (VALID_EXTENSIONS ! nat i)" "0 \<le> i"
    "''photo_9.png'' = stem @ e" "''photo_10.png'' = stem' @ e"
    "hasValidExtension ''photo_9.png'' = Inr i" "hasValidExtension ''photo_10.png'' = Inr i"
    using generateFilename_preserves_extension [OF gen ne] by blast
  moreover from this h have "i = 0" by simp
  moreover have "ext (VALID_EXTENSIONS ! 0) = ''.png''" by (simp add: VALID_EXTENSIONS_def)
  ultimately show ?thesis by (metis nat_0)
qed

end
